theory Spec2Isabelle
  imports Main "HOL-Library.Word"
begin

unbundle bit_operations_syntax

section \<open>Data model of \<^verbatim>\<open>src/mqtt.py\<close>\<close>

text \<open>
  Python integers are unbounded, so they are \<open>int\<close>. A \<^verbatim>\<open>bytes\<close>, \<^verbatim>\<open>bytearray\<close> or
  \<^verbatim>\<open>memoryview\<close> value is the list of its elements; wherever Python checks that an
  element fits a byte (\<^verbatim>\<open>bytes((x,))\<close>, \<^verbatim>\<open>int.to_bytes\<close>) the check is a branch of
  the model. A Python \<^verbatim>\<open>str\<close> is an Isabelle \<open>string\<close> holding its UTF-8 bytes, one
  \<open>char\<close> per byte, so \<^verbatim>\<open>encode('utf8')\<close> and \<^verbatim>\<open>str(b, 'utf8')\<close> only change the element
  type.
\<close>

type_synonym bytes = "int list"

datatype error =
    AssertionError
  | ValueError
  | IndexError
  | NameError
  | AttributeError
  | OverflowError
  | TypeError
  | OSError
  | Exception string

definition P_CONNECT :: int where "P_CONNECT = 1"
definition P_CONNACK :: int where "P_CONNACK = 2"
definition P_PUBLISH :: int where "P_PUBLISH = 3"
definition P_PUBACK :: int where "P_PUBACK = 4"
definition P_PUBREC :: int where "P_PUBREC = 5"
definition P_PUBREL :: int where "P_PUBREL = 6"
definition P_PUBCOMP :: int where "P_PUBCOMP = 7"
definition P_SUBSCRIBE :: int where "P_SUBSCRIBE = 8"
definition P_SUBACK :: int where "P_SUBACK = 9"
definition P_UNSUBSCRIBE :: int where "P_UNSUBSCRIBE = 10"
definition P_UNSUBACK :: int where "P_UNSUBACK = 11"
definition P_PINGREQ :: int where "P_PINGREQ = 12"
definition P_PINGRESP :: int where "P_PINGRESP = 13"
definition P_DISCONNECT :: int where "P_DISCONNECT = 14"

lemmas P_defs = P_CONNECT_def P_CONNACK_def P_PUBLISH_def P_PUBACK_def P_PUBREC_def
  P_PUBREL_def P_PUBCOMP_def P_SUBSCRIBE_def P_SUBACK_def P_UNSUBSCRIBE_def
  P_UNSUBACK_def P_PINGREQ_def P_PINGRESP_def P_DISCONNECT_def

text \<open>The named tuple \<^verbatim>\<open>Message(topic, payload, qos, retain)\<close>. On the receiving side
  \<^verbatim>\<open>qos\<close> and \<^verbatim>\<open>retain\<close> are the integers cut out of the fixed header.\<close>

datatype message = Message string string int int

text \<open>
  The transport is a collaborator of the client. A socket is modelled by the bytes the
  peer still delivers (\<open>inbox\<close>), whether the peer has closed its side after them
  (\<open>eof\<close>), and the arguments of the \<^verbatim>\<open>sendall\<close> calls made so far, oldest first
  (\<open>sent\<close>).
\<close>

record socket =
  inbox :: bytes
  eof :: bool
  sent :: "bytes list"

text \<open>What \<^verbatim>\<open>print\<close> wrote, one entry per diagnostic of \<^verbatim>\<open>loop_read\<close>.\<close>

datatype diagnostic =
    UnknownPuback int
  | Unhandled int int

text \<open>
  The attributes of \<^verbatim>\<open>Client\<close>. \<open>sock\<close> is \<open>None\<close> until \<^verbatim>\<open>reconnect\<close> assigns it;
  \<open>host\<close>, \<open>port\<close> and \<open>keepalive\<close> do not exist until \<^verbatim>\<open>connect\<close> assigns them
  (\<open>None\<close> here, an \<^verbatim>\<open>AttributeError\<close> when read). \<open>registered\<close> says whether
  \<open>sock\<close> is registered with \<^verbatim>\<open>self.poll\<close>. The callback \<^verbatim>\<open>on_message\<close> is code of the
  caller: the model records each invocation in \<open>delivered\<close>, and \<open>printed\<close> holds
  the diagnostics.
\<close>

record client =
  client_id :: string
  clean_session :: bool
  sock :: "socket option"
  registered :: bool
  size_buf :: bytes
  packet_id :: int
  connected :: bool
  pub_queue :: "(int \<times> int \<times> bytes) list"
  host :: "string option"
  port :: "int option"
  keepalive :: "int option"
  delivered :: "message list"
  printed :: "diagnostic list"

text \<open>\<^verbatim>\<open>Client.__init__\<close>\<close>

definition init :: "string \<Rightarrow> bool \<Rightarrow> client" where
  "init cid clean =
     \<lparr> client_id = cid, clean_session = clean, sock = None, registered = False,
       size_buf = [0, 0, 0, 0], packet_id = 1, connected = False, pub_queue = [],
       host = None, port = None, keepalive = None, delivered = [], printed = [] \<rparr>"

section \<open>Byte helpers of the Python runtime\<close>

text \<open>\<^verbatim>\<open>x.to_bytes(2, 'big')\<close>: raises \<^verbatim>\<open>OverflowError\<close> outside \<open>[0, 65535]\<close>.\<close>

definition to_bytes2 :: "int \<Rightarrow> error + bytes" where
  "to_bytes2 x =
     (if 0 \<le> x \<and> x < 65536 then Inr [x div 256, x mod 256] else Inl OverflowError)"

text \<open>\<^verbatim>\<open>int.from_bytes(b, 'big')\<close>\<close>

definition from_bytes :: "bytes \<Rightarrow> int" where
  "from_bytes bs = foldl (\<lambda>acc b. acc * 256 + b) 0 bs"

text \<open>\<^verbatim>\<open>s.encode('utf8')\<close> and \<^verbatim>\<open>str(b, 'utf8')\<close>\<close>

definition encode_utf8 :: "string \<Rightarrow> bytes" where
  "encode_utf8 s = map of_char s"

definition decode_utf8 :: "bytes \<Rightarrow> string" where
  "decode_utf8 bs = map char_of bs"

section \<open>The transport\<close>

text \<open>
  \<^verbatim>\<open>self.sock.recv(n)\<close>: an \<^verbatim>\<open>AttributeError\<close> while \<open>sock\<close> is \<open>None\<close>. Otherwise
  up to \<open>n\<close> pending bytes; no byte at all once the peer has closed; and when nothing
  is pending on an open connection the call runs into the socket timeout.
\<close>

definition sock_recv :: "nat \<Rightarrow> client \<Rightarrow> (error + bytes) \<times> client" where
  "sock_recv n c =
     (case sock c of
        None \<Rightarrow> (Inl AttributeError, c)
      | Some s \<Rightarrow>
          if inbox s = [] \<and> \<not> eof s then (Inl OSError, c)
          else (Inr (take n (inbox s)), c\<lparr>sock := Some (s\<lparr>inbox := drop n (inbox s)\<rparr>)\<rparr>))"

text \<open>\<^verbatim>\<open>self.sock.sendall(b)\<close>\<close>

definition sock_sendall :: "bytes \<Rightarrow> client \<Rightarrow> (error + unit) \<times> client" where
  "sock_sendall b c =
     (case sock c of
        None \<Rightarrow> (Inl AttributeError, c)
      | Some s \<Rightarrow> (Inr (), c\<lparr>sock := Some (s\<lparr>sent := sent s @ [b]\<rparr>)\<rparr>))"

section \<open>The remaining-length field\<close>

text \<open>
  The \<^verbatim>\<open>while True\<close> loop of \<^verbatim>\<open>remaining_len\<close>, on the loop variables \<^verbatim>\<open>size\<close>
  (here \<open>sz\<close>) and \<open>i\<close> and the buffer \<^verbatim>\<open>self._size_buf\<close>. Writing past the end of the buffer raises
  \<^verbatim>\<open>IndexError\<close>. The result is the final \<open>i\<close> and the buffer.
\<close>

function remaining_len_loop :: "int \<Rightarrow> nat \<Rightarrow> bytes \<Rightarrow> (error + nat) \<times> bytes" where
  "remaining_len_loop sz i buf =
     (if length buf \<le> i then (Inl IndexError, buf)
      else if drop_bit 7 sz > 0
        then remaining_len_loop (drop_bit 7 sz) (i + 1)
               ((buf[i := sz AND 127])[i := (buf[i := sz AND 127]) ! i OR 128])
        else (Inr i, buf[i := sz AND 127]))"
  by pat_completeness auto
termination
  by (relation "measure (\<lambda>(sz, i, buf). length buf - i)") auto

declare remaining_len_loop.simps [simp del]

text \<open>\<^verbatim>\<open>Client.remaining_len\<close>: the assertion, the loop, and the slice \<^verbatim>\<open>[:i+1]\<close> of the
  buffer.\<close>

definition remaining_len :: "int \<Rightarrow> client \<Rightarrow> (error + bytes) \<times> client" where
  "remaining_len sz c =
     (if \<not> sz \<le> push_bit 20 256 - 1 then (Inl AssertionError, c)
      else case remaining_len_loop sz 0 (size_buf c) of
             (Inl e, buf) \<Rightarrow> (Inl e, c\<lparr>size_buf := buf\<rparr>)
           | (Inr i, buf) \<Rightarrow> (Inr (take (i + 1) buf), c\<lparr>size_buf := buf\<rparr>))"

text \<open>
  The \<^verbatim>\<open>for i in range(4)\<close> loop of \<^verbatim>\<open>_recv_len\<close>: the first argument counts the
  iterations left, and running out of them is the \<^verbatim>\<open>else\<close> branch of the loop.
  \<^verbatim>\<open>_byte, = self.sock.recv(1)\<close> raises \<^verbatim>\<open>ValueError\<close> unless exactly one byte came.
\<close>

fun recv_len_loop :: "nat \<Rightarrow> nat \<Rightarrow> int \<Rightarrow> client \<Rightarrow> (error + int) \<times> client" where
  "recv_len_loop 0 i v c = (Inl (Exception ''OH NO''), c)"
| "recv_len_loop (Suc n) i v c =
     (case sock_recv 1 c of
        (Inl e, c') \<Rightarrow> (Inl e, c')
      | (Inr [b], c') \<Rightarrow>
          if b AND 128 = 0 then (Inr (v OR push_bit (7 * i) (b AND 127)), c')
          else recv_len_loop n (i + 1) (v OR push_bit (7 * i) (b AND 127)) c'
      | (Inr _, c') \<Rightarrow> (Inl ValueError, c'))"

text \<open>\<^verbatim>\<open>Client._recv_len\<close>\<close>

definition recv_len :: "client \<Rightarrow> (error + int) \<times> client" where
  "recv_len c = recv_len_loop 4 0 0 c"

section \<open>Sending packets\<close>

text \<open>
  \<^verbatim>\<open>Client._send\<close>. The steps in the order Python takes them: the flags override, the
  header byte \<^verbatim>\<open>bytes((ctrl_typ << 4 | flags,))\<close> (a \<^verbatim>\<open>ValueError\<close> outside a byte),
  the lookup of \<^verbatim>\<open>self.sock.sendall\<close> (an \<^verbatim>\<open>AttributeError\<close> without a socket), the
  remaining length of the payload, and the two \<^verbatim>\<open>sendall\<close> calls.
\<close>

definition send :: "int \<Rightarrow> int \<Rightarrow> bytes \<Rightarrow> client \<Rightarrow> (error + unit) \<times> client" where
  "send ctrl_typ flags0 pl c =
     (let flags = (if ctrl_typ = P_PUBREL \<or> ctrl_typ = P_SUBSCRIBE \<or> ctrl_typ = P_UNSUBSCRIBE
                   then 2 else flags0);
          ctrl_pkt = push_bit 4 ctrl_typ OR flags
      in if \<not> (0 \<le> ctrl_pkt \<and> ctrl_pkt < 256) then (Inl ValueError, c)
         else if sock c = None then (Inl AttributeError, c)
         else case remaining_len (int (length pl)) c of
                (Inl e, c1) \<Rightarrow> (Inl e, c1)
              | (Inr rl, c1) \<Rightarrow>
                  (case sock_sendall (ctrl_pkt # rl) c1 of
                     (Inl e, c2) \<Rightarrow> (Inl e, c2)
                   | (Inr u, c2) \<Rightarrow> sock_sendall pl c2))"

text \<open>The packet-identifier update shared by \<^verbatim>\<open>subscribe\<close> and \<^verbatim>\<open>publish\<close>:
  \<^verbatim>\<open>self._packet_id + 1 & 0xffff or 1\<close>, that is \<^verbatim>\<open>((self._packet_id + 1) & 0xffff) or 1\<close>.\<close>

definition next_packet_id :: "int \<Rightarrow> int" where
  "next_packet_id p = (if (p + 1) AND 65535 \<noteq> 0 then (p + 1) AND 65535 else 1)"

text \<open>The \<^verbatim>\<open>for topic in topics\<close> loop of \<^verbatim>\<open>subscribe\<close>, on the accumulator
  \<^verbatim>\<open>remaining\<close>.\<close>

fun subscribe_topics :: "string list \<Rightarrow> int \<Rightarrow> bytes \<Rightarrow> error + bytes" where
  "subscribe_topics [] q remaining = Inr remaining"
| "subscribe_topics (t # ts) q remaining =
     (case to_bytes2 (int (length (encode_utf8 t))) of
        Inl e \<Rightarrow> Inl e
      | Inr tlen \<Rightarrow>
          if \<not> (0 \<le> q \<and> q < 256) then Inl ValueError
          else subscribe_topics ts q (remaining @ tlen @ encode_utf8 t @ [q]))"

text \<open>\<^verbatim>\<open>Client.subscribe\<close>\<close>

definition subscribe :: "string list \<Rightarrow> int \<Rightarrow> client \<Rightarrow> (error + int) \<times> client" where
  "subscribe topics q c =
     (let c1 = c\<lparr>packet_id := next_packet_id (packet_id c)\<rparr>
      in case to_bytes2 (packet_id c1) of
           Inl e \<Rightarrow> (Inl e, c1)
         | Inr pid \<Rightarrow>
             (case subscribe_topics topics q pid of
                Inl e \<Rightarrow> (Inl e, c1)
              | Inr remaining \<Rightarrow>
                  (case send P_SUBSCRIBE 0 remaining c1 of
                     (Inl e, c2) \<Rightarrow> (Inl e, c2)
                   | (Inr u, c2) \<Rightarrow> (Inr (packet_id c2), c2))))"

text \<open>
  \<^verbatim>\<open>Client.publish\<close>. \<open>msg\<close> is \<open>None\<close> for the default \<^verbatim>\<open>message=None\<close>, on which
  \<^verbatim>\<open>message.encode\<close> raises \<^verbatim>\<open>AttributeError\<close>. The result is \<open>Some\<close> of the returned
  integer, and \<open>None\<close> when the function ends without a \<^verbatim>\<open>return\<close> statement, so
  that Python's \<^verbatim>\<open>None\<close> is returned.
\<close>

definition publish ::
  "string \<Rightarrow> string option \<Rightarrow> int \<Rightarrow> bool \<Rightarrow> client \<Rightarrow> (error + int option) \<times> client" where
  "publish tpc msg q rtn c =
     (let flags = push_bit 1 q OR of_bool rtn;
          t = encode_utf8 tpc
      in case to_bytes2 (int (length t)) of
           Inl e \<Rightarrow> (Inl e, c)
         | Inr tlen \<Rightarrow>
             (let c1 = (if q \<noteq> 0 then c\<lparr>packet_id := next_packet_id (packet_id c)\<rparr> else c)
              in case (if q \<noteq> 0 then to_bytes2 (packet_id c1) else Inr []) of
                   Inl e \<Rightarrow> (Inl e, c1)
                 | Inr pid \<Rightarrow>
                     (case msg of
                        None \<Rightarrow> (Inl AttributeError, c1)
                      | Some m \<Rightarrow>
                          (let pl = tlen @ t @ pid @ encode_utf8 m
                           in case send P_PUBLISH flags pl c1 of
                                (Inl e, c2) \<Rightarrow> (Inl e, c2)
                              | (Inr u, c2) \<Rightarrow>
                                  if q \<noteq> 0
                                  then (Inr (Some (packet_id c2)),
                                        c2\<lparr>pub_queue := pub_queue c2 @ [(packet_id c2, flags, pl)]\<rparr>)
                                  else (Inr None, c2)))))"

text \<open>\<^verbatim>\<open>Client.republish\<close>\<close>

definition republish :: "int \<Rightarrow> bytes \<Rightarrow> client \<Rightarrow> (error + unit) \<times> client" where
  "republish flags pl c = send P_PUBLISH (flags OR push_bit 3 1) pl c"

text \<open>\<^verbatim>\<open>Client.ping\<close>: \<^verbatim>\<open>(P_PINGREQ << 4).to_bytes(2, 'little')\<close> is the header byte
  followed by a zero remaining length.\<close>

definition ping :: "client \<Rightarrow> (error + unit) \<times> client" where
  "ping c = sock_sendall [push_bit 4 P_PINGREQ mod 256, push_bit 4 P_PINGREQ div 256] c"

section \<open>Connecting\<close>

text \<open>
  \<^verbatim>\<open>Client.reconnect\<close>. \<open>new\<close> is the connection that \<^verbatim>\<open>usocket.socket()\<close> and its
  \<^verbatim>\<open>connect\<close> yield: what the broker will deliver on it. A previous socket is unregistered
  and closed. State changes made before an exception stay, so every error is returned
  together with the client as it was left.
\<close>

definition reconnect :: "socket \<Rightarrow> client \<Rightarrow> (error + int) \<times> client" where
  "reconnect new c =
     (let c1 = (if sock c \<noteq> None then c\<lparr>registered := False\<rparr> else c);
          c2 = c1\<lparr>sock := Some new\<rparr>
      in case keepalive c2 of
           None \<Rightarrow> (Inl AttributeError, c2)
         | Some ka \<Rightarrow>
             (let c3 = c2\<lparr>registered := True\<rparr>
              in if host c3 = None \<or> port c3 = None then (Inl AttributeError, c3)
                 else case to_bytes2 ka of
                   Inl e \<Rightarrow> (Inl e, c3)
                 | Inr kab \<Rightarrow>
                     (case to_bytes2 (int (length (encode_utf8 (client_id c3)))) of
                        Inl e \<Rightarrow> (Inl e, c3)
                      | Inr idl \<Rightarrow>
                          (let remaining = [0, 4, 77, 81, 84, 84, 4]
                                 @ [push_bit 1 (of_bool (clean_session c3))]
                                 @ kab @ idl @ encode_utf8 (client_id c3)
                           in case send P_CONNECT 0 remaining c3 of
                                (Inl e, c4) \<Rightarrow> (Inl e, c4)
                              | (Inr u, c4) \<Rightarrow>
                                  (case sock_recv 1 c4 of
                                     (Inl e, c5) \<Rightarrow> (Inl e, c5)
                                   | (Inr [ack], c5) \<Rightarrow>
                                       if drop_bit 4 ack \<noteq> P_CONNACK then (Inl AssertionError, c5)
                                       else (let c6 = c5\<lparr>connected := True\<rparr>
                                             in case sock_recv 3 c6 of
                                                  (Inl e, c7) \<Rightarrow> (Inl e, c7)
                                                | (Inr [x, flags, ret_code], c7) \<Rightarrow>
                                                    if ret_code \<noteq> 0 then (Inl AssertionError, c7)
                                                    else (Inr (flags AND 1), c7)
                                                | (Inr other, c7) \<Rightarrow> (Inl ValueError, c7))
                                   | (Inr other, c5) \<Rightarrow> (Inl ValueError, c5))))))"

text \<open>\<^verbatim>\<open>Client.connect\<close>\<close>

definition connect :: "string \<Rightarrow> int \<Rightarrow> int \<Rightarrow> socket \<Rightarrow> client \<Rightarrow> (error + int) \<times> client" where
  "connect h p ka new c = reconnect new (c\<lparr>host := Some h, port := Some p, keepalive := Some ka\<rparr>)"

section \<open>Receiving packets\<close>

text \<open>
  \<^verbatim>\<open>Client._unpack_publish\<close>. The packet identifier it returns is the integer \<open>0\<close>
  when \<^verbatim>\<open>qos\<close> is zero and otherwise the slice \<^verbatim>\<open>data[:2]\<close>, a \<^verbatim>\<open>bytes\<close> value taken
  from the argument \<^verbatim>\<open>data\<close> itself (not from the view \<^verbatim>\<open>_data\<close>, which has moved past
  the topic by then).
\<close>

datatype pid = PidInt int | PidBytes bytes

definition unpack_publish :: "bytes \<Rightarrow> int \<Rightarrow> int \<Rightarrow> pid \<times> message" where
  "unpack_publish data rtn q =
     (let topic_len = from_bytes (take 2 data);
          d1 = drop 2 data;
          tpc = decode_utf8 (take (nat topic_len) d1);
          d2 = drop (nat topic_len) d1;
          pid = (if q \<noteq> 0 then PidBytes (take 2 data) else PidInt 0);
          d3 = (if q \<noteq> 0 then drop 2 d2 else d2);
          pl = decode_utf8 d3
      in (pid, Message tpc pl q rtn))"

text \<open>
  The \<^verbatim>\<open>for ... in enumerate(self._pub_queue)\<close> loop of the PUBACK handler: the first
  entry with the acknowledged identifier is deleted and the loop left; \<open>None\<close> is the
  loop's \<^verbatim>\<open>else\<close> branch, reached when no entry matched.
\<close>

fun remove_acked :: "int \<Rightarrow> (int \<times> int \<times> bytes) list \<Rightarrow> (int \<times> int \<times> bytes) list option" where
  "remove_acked p [] = None"
| "remove_acked p (e # es) =
     (if p = fst e then Some es else map_option ((#) e) (remove_acked p es))"

text \<open>
  The handlers of \<^verbatim>\<open>loop_read\<close>, from \<^verbatim>\<open># Start of handlers\<close> to the end of the loop
  body. The loop's local variables are \<^verbatim>\<open>data\<close> (\<open>None\<close> while it is unbound, so that
  reading it raises \<^verbatim>\<open>NameError\<close>) and \<^verbatim>\<open>ping_resp\<close>; the result says whether the loop
  goes on (\<^verbatim>\<open>continue\<close>, or the end of the body) or is left (\<^verbatim>\<open>break\<close>).
\<close>

datatype control = Continue | Break

definition dispatch ::
  "int \<Rightarrow> int \<Rightarrow> bytes option \<Rightarrow> bool \<Rightarrow> client
     \<Rightarrow> (error + control) \<times> (bytes option \<times> bool) \<times> client" where
  "dispatch ctrl_pkt ctrl_pkt_typ data ping_resp c =
     (if ctrl_pkt_typ = P_PINGRESP then (Inr Continue, (data, True), c)
      else if ctrl_pkt_typ = P_SUBACK then
        (case data of
           None \<Rightarrow> (Inl NameError, (data, ping_resp), c)
         | Some d \<Rightarrow>
             if length d \<le> 2 then (Inl IndexError, (data, ping_resp), c)
             else (Inr Continue, (data, ping_resp), c))
      else if ctrl_pkt_typ = P_PUBLISH then
        (case data of
           None \<Rightarrow> (Inl NameError, (data, ping_resp), c)
         | Some d \<Rightarrow>
             (let rtn = ctrl_pkt AND 1;
                  q = drop_bit 1 ctrl_pkt AND 3;
                  (pid, msg) = unpack_publish d rtn q
              in case (if q = 1
                       then (case pid of
                               PidBytes b \<Rightarrow> send P_PUBACK 0 b c
                             | PidInt n \<Rightarrow> (Inl TypeError, c))
                       else (Inr (), c)) of
                   (Inl e, c1) \<Rightarrow> (Inl e, (data, ping_resp), c1)
                 | (Inr u, c1) \<Rightarrow>
                     (Inr Continue, (data, ping_resp), c1\<lparr>delivered := delivered c1 @ [msg]\<rparr>)))
      else if ctrl_pkt_typ = P_PUBACK then
        (case data of
           None \<Rightarrow> (Inl NameError, (data, ping_resp), c)
         | Some d \<Rightarrow>
             (case remove_acked (from_bytes d) (pub_queue c) of
                Some q' \<Rightarrow> (Inr Continue, (data, ping_resp), c\<lparr>pub_queue := q'\<rparr>)
              | None \<Rightarrow>
                  (Inr Continue, (data, ping_resp),
                   c\<lparr>printed := printed c @ [UnknownPuback (from_bytes d)]\<rparr>)))
      else if ctrl_pkt_typ = P_DISCONNECT then
        (Inr Break, (data, ping_resp), c\<lparr>connected := False\<rparr>)
      else (Inr Continue, (data, ping_resp),
            c\<lparr>printed := printed c @ [Unhandled ctrl_pkt ctrl_pkt_typ]\<rparr>))"

text \<open>
  One iteration of the \<^verbatim>\<open>while\<close> loop of \<^verbatim>\<open>loop_read\<close>. The \<^verbatim>\<open>try\<close> block holds only
  \<^verbatim>\<open>ctrl_pkt, = self.sock.recv(1)\<close>, whose \<^verbatim>\<open>ValueError\<close> (no byte came) is caught.
  \<^verbatim>\<open>data\<close> is assigned only when \<^verbatim>\<open>data_len\<close> is not zero.
\<close>

definition loop_body ::
  "bytes option \<Rightarrow> bool \<Rightarrow> client \<Rightarrow> (error + control) \<times> (bytes option \<times> bool) \<times> client" where
  "loop_body data ping_resp c =
     (case sock_recv 1 c of
        (Inl e, c1) \<Rightarrow> (Inl e, (data, ping_resp), c1)
      | (Inr [ctrl_pkt], c1) \<Rightarrow>
          (case recv_len c1 of
             (Inl e, c2) \<Rightarrow> (Inl e, (data, ping_resp), c2)
           | (Inr data_len, c2) \<Rightarrow>
               (case (if data_len \<noteq> 0
                      then (case sock_recv (nat data_len) c2 of
                              (Inl e, c3) \<Rightarrow> (Inl e, c3)
                            | (Inr d, c3) \<Rightarrow> (Inr (Some d), c3))
                      else (Inr data, c2)) of
                  (Inl e, c3) \<Rightarrow> (Inl e, (data, ping_resp), c3)
                | (Inr data', c3) \<Rightarrow> dispatch ctrl_pkt (drop_bit 4 ctrl_pkt) data' ping_resp c3))
      | (Inr other, c1) \<Rightarrow> (Inr Break, (data, ping_resp), c1\<lparr>connected := False\<rparr>))"

text \<open>\<^verbatim>\<open>self.poll.poll(...)\<close>: the registered socket is readable when bytes are pending
  or the peer has closed.\<close>

definition poll :: "client \<Rightarrow> bool" where
  "poll c = (registered c \<and> (case sock c of None \<Rightarrow> False | Some s \<Rightarrow> inbox s \<noteq> [] \<or> eof s))"

text \<open>The number of bytes still to come on the socket; each iteration that goes on
  has consumed at least one, which is why the loop ends.\<close>

definition pending :: "client \<Rightarrow> nat" where
  "pending c = (case sock c of None \<Rightarrow> 0 | Some s \<Rightarrow> length (inbox s))"

lemma sock_recv_pending: "sock_recv n c = (r, c') \<Longrightarrow> pending c' \<le> pending c"
  by (auto simp add: sock_recv_def pending_def split: option.splits if_splits)

lemma sock_recv_1_pending:
  assumes "sock_recv 1 c = (Inr [b], c')"
  shows "pending c' < pending c"
proof (cases "sock c")
  case None
  with assms show ?thesis by (simp add: sock_recv_def)
next
  case (Some s)
  with assms show ?thesis
    by (cases "inbox s") (auto simp add: sock_recv_def pending_def split: if_splits)
qed

lemma sock_sendall_pending: "sock_sendall b c = (r, c') \<Longrightarrow> pending c' = pending c"
  by (cases "sock c") (auto simp add: sock_sendall_def pending_def)

lemma remaining_len_pending:
  assumes "remaining_len n c = (r, c')"
  shows "pending c' = pending c"
proof (cases "remaining_len_loop n 0 (size_buf c)")
  case (Pair r1 buf)
  with assms show ?thesis
    by (cases r1) (auto simp add: remaining_len_def pending_def split: if_splits)
qed

lemma send_pending:
  assumes "send t f pl c = (r, c')"
  shows "pending c' = pending c"
proof (cases "remaining_len (int (length pl)) c")
  case (Pair r1 c1)
  then have p1: "pending c1 = pending c" by (rule remaining_len_pending)
  show ?thesis
  proof (cases r1)
    case (Inl e)
    with assms Pair p1 show ?thesis
      by (auto simp add: send_def Let_def split: if_splits)
  next
    case (Inr rl)
    define hd where "hd = push_bit 4 t OR
      (if t = P_PUBREL \<or> t = P_SUBSCRIBE \<or> t = P_UNSUBSCRIBE then 2 else f)"
    obtain r2 c2 where s2: "sock_sendall (hd # rl) c1 = (r2, c2)" by force
    then have p2: "pending c2 = pending c1" by (rule sock_sendall_pending)
    obtain r3 c3 where s3: "sock_sendall pl c2 = (r3, c3)" by force
    then have p3: "pending c3 = pending c2" by (rule sock_sendall_pending)
    from assms Pair Inr s2 s3 p1 p2 p3 show ?thesis
      by (cases r2) (auto simp add: send_def Let_def hd_def split: if_splits)
  qed
qed

lemma recv_len_loop_pending: "recv_len_loop n i v c = (r, c') \<Longrightarrow> pending c' \<le> pending c"
proof (induction n arbitrary: i v c)
  case 0
  then show ?case by simp
next
  case (Suc n)
  obtain r1 c1 where r: "sock_recv 1 c = (r1, c1)" by force
  then have p1: "pending c1 \<le> pending c" by (rule sock_recv_pending)
  show ?case
  proof (cases r1)
    case (Inl e)
    with Suc.prems r p1 show ?thesis by simp
  next
    case (Inr bs)
    show ?thesis
    proof (cases "\<exists>b. bs = [b] \<and> b AND 128 \<noteq> 0")
      case True
      then obtain b where b: "bs = [b]" "b AND 128 \<noteq> 0" by blast
      with Suc.prems r Inr
      have "recv_len_loop n (i + 1) (v OR push_bit (7 * i) (b AND 127)) c1 = (r, c')"
        by simp
      then have "pending c' \<le> pending c1" by (rule Suc.IH)
      with p1 show ?thesis by simp
    next
      case False
      with Suc.prems r Inr have "c' = c1"
        by (auto split: list.splits if_splits)
      with p1 show ?thesis by simp
    qed
  qed
qed

lemma recv_len_pending: "recv_len c = (r, c') \<Longrightarrow> pending c' \<le> pending c"
  unfolding recv_len_def by (rule recv_len_loop_pending)

lemma dispatch_pending:
  assumes "dispatch cp ct data pr c = (r, l, c')"
  shows "pending c' = pending c"
proof -
  have upd: "\<And>f g h. pending (c\<lparr>pub_queue := f\<rparr>) = pending c"
    "\<And>f. pending (c\<lparr>printed := f\<rparr>) = pending c"
    "\<And>f. pending (c\<lparr>connected := f\<rparr>) = pending c"
    by (simp_all add: pending_def)
  consider (ping) "ct = P_PINGRESP" | (suback) "ct = P_SUBACK" | (publish) "ct = P_PUBLISH"
    | (puback) "ct = P_PUBACK" | (disc) "ct = P_DISCONNECT"
    | (other) "ct \<noteq> P_PINGRESP" "ct \<noteq> P_SUBACK" "ct \<noteq> P_PUBLISH" "ct \<noteq> P_PUBACK" "ct \<noteq> P_DISCONNECT"
    by blast
  then show ?thesis
  proof cases
    case ping
    with assms show ?thesis by (simp add: dispatch_def)
  next
    case suback
    with assms show ?thesis
      by (cases data) (auto simp add: dispatch_def P_defs split: if_splits)
  next
    case publish
    show ?thesis
    proof (cases data)
      case None
      with assms publish show ?thesis by (simp add: dispatch_def P_defs)
    next
      case (Some d)
      obtain pid msg where u: "unpack_publish d (cp AND 1) (drop_bit 1 cp AND 3) = (pid, msg)"
        by force
      obtain r1 c1 where s: "(if drop_bit 1 cp AND 3 = 1
                       then (case pid of
                               PidBytes b \<Rightarrow> send P_PUBACK 0 b c
                             | PidInt n \<Rightarrow> (Inl TypeError, c))
                       else (Inr (), c)) = (r1, c1)" by force
      then have "pending c1 = pending c"
        by (cases pid) (auto split: if_splits dest: send_pending)
      moreover have "pending (c1\<lparr>delivered := delivered c1 @ [msg]\<rparr>) = pending c1"
        by (simp add: pending_def)
      ultimately show ?thesis
        using assms publish Some u s
        by (cases r1) (auto simp add: dispatch_def P_defs Let_def)
    qed
  next
    case puback
    with assms upd show ?thesis
      by (cases data) (auto simp add: dispatch_def P_defs split: option.splits)
  next
    case disc
    with assms upd show ?thesis by (auto simp add: dispatch_def P_defs)
  next
    case other
    with assms upd show ?thesis by (auto simp add: dispatch_def)
  qed
qed

lemma loop_body_continue:
  assumes "loop_body data pr c = (Inr Continue, l, c')"
  shows "pending c' < pending c"
proof -
  obtain r1 c1 where r: "sock_recv 1 c = (r1, c1)" by force
  show ?thesis
  proof (cases "\<exists>b. r1 = Inr [b]")
    case False
    with assms r show ?thesis
      by (cases r1) (auto simp add: loop_body_def split: list.splits)
  next
    case True
    then obtain b where b: "r1 = Inr [b]" by blast
    with r have p1: "pending c1 < pending c" by (simp add: sock_recv_1_pending)
    obtain r2 c2 where l: "recv_len c1 = (r2, c2)" by force
    then have p2: "pending c2 \<le> pending c1" by (rule recv_len_pending)
    show ?thesis
    proof (cases r2)
      case (Inl e)
      with assms r b l show ?thesis by (simp add: loop_body_def)
    next
      case (Inr n)
      obtain r3 c3 where d: "(if n \<noteq> 0
                      then (case sock_recv (nat n) c2 of
                              (Inl e, c3) \<Rightarrow> (Inl e, c3)
                            | (Inr d, c3) \<Rightarrow> (Inr (Some d), c3))
                      else (Inr data, c2)) = (r3, c3)" by force
      then have p3: "pending c3 \<le> pending c2"
        by (auto split: if_splits prod.splits sum.splits dest: sock_recv_pending)
      show ?thesis
      proof (cases r3)
        case (Inl e)
        with assms r b l Inr d show ?thesis by (simp add: loop_body_def)
      next
        case (Inr data')
        with assms r b l \<open>r2 = Inr n\<close> d
        have "dispatch b (drop_bit 4 b) data' pr c3 = (Inr Continue, l, c')"
          by (simp add: loop_body_def)
        then have "pending c' = pending c3" by (rule dispatch_pending)
        with p1 p2 p3 show ?thesis by simp
      qed
    qed
  qed
qed

text \<open>The \<^verbatim>\<open>while self.poll.poll(...)\<close> loop and \<^verbatim>\<open>Client.loop_read\<close>, which reads
  \<^verbatim>\<open>self.keepalive\<close> first.\<close>

function loop_read_while :: "bytes option \<Rightarrow> bool \<Rightarrow> client \<Rightarrow> (error + bool) \<times> client" where
  "loop_read_while data ping_resp c =
     (if poll c
      then (case loop_body data ping_resp c of
              (Inl e, l, c') \<Rightarrow> (Inl e, c')
            | (Inr Break, (data', ping_resp'), c') \<Rightarrow> (Inr ping_resp', c')
            | (Inr Continue, (data', ping_resp'), c') \<Rightarrow> loop_read_while data' ping_resp' c')
      else (Inr ping_resp, c))"
  by pat_completeness auto
termination
  by (relation "measure (\<lambda>(data, ping_resp, c). pending c)")
     (auto dest: loop_body_continue [OF sym])

declare loop_read_while.simps [simp del]

definition loop_read :: "client \<Rightarrow> (error + bool) \<times> client" where
  "loop_read c =
     (case keepalive c of
        None \<Rightarrow> (Inl AttributeError, c)
      | Some ka \<Rightarrow> loop_read_while None False c)"

section \<open>Notions of the specification\<close>

text \<open>Python's \<^verbatim>\<open>int.bit_length\<close>, the \<open>bitlength\<close> of the specification.\<close>

function bit_length :: "int \<Rightarrow> nat" where
  "bit_length n = (if n = 0 then 0 else Suc (bit_length (\<bar>n\<bar> div 2)))"
  by pat_completeness auto
termination
  by (relation "measure (\<lambda>n. nat \<bar>n\<bar>)") auto

declare bit_length.simps [simp del]

text \<open>The base-128 encoding as a list: seven bits per byte, least significant group
  first, the high bit set on every byte but the last.\<close>

function varint :: "int \<Rightarrow> bytes" where
  "varint sz =
     (if drop_bit 7 sz > 0 then (sz AND 127 OR 128) # varint (drop_bit 7 sz)
      else [sz AND 127])"
  by pat_completeness auto
termination
  by (relation "measure nat") (auto simp add: drop_bit_eq_div)

declare varint.simps [simp del]

section \<open>Properties of the remaining-length codec\<close>

subsection \<open>Bit-level facts about one encoded byte\<close>

lemma and127: "(x::int) AND 127 = take_bit 7 x"
  by (simp add: take_bit_eq_mask mask_eq_exp_minus_1)

lemma bit128: "bit (128::int) n \<longleftrightarrow> n = 7"
proof -
  have "(128::int) = 2 ^ 7" by simp
  then show ?thesis by (simp only: bit_exp_iff) auto
qed

lemma cont_and127: "((x::int) AND 127 OR 128) AND 127 = take_bit 7 x"
  unfolding and127 by (rule bit_eqI) (auto simp add: bit_simps bit128)

lemma cont_and128: "((x::int) AND 127 OR 128) AND 128 \<noteq> 0"
proof -
  have "((x::int) AND 127 OR 128) AND 128 = 128"
    unfolding and127 by (rule bit_eqI) (auto simp add: bit_simps bit128)
  then show ?thesis by simp
qed

lemma last_and128: "((x::int) AND 127) AND 128 = 0"
  unfolding and127 by (rule bit_eqI) (auto simp add: bit_simps bit128)

lemma last_and127: "((x::int) AND 127) AND 127 = take_bit 7 x"
  unfolding and127 by simp

lemma varint_nonempty: "varint sz \<noteq> []"
  by (subst varint.simps) simp

lemma remaining_len_loop_varint:
  "i + length (varint sz) \<le> length buf \<Longrightarrow>
   remaining_len_loop sz i buf =
     (Inr (i + length (varint sz) - 1),
      take i buf @ varint sz @ drop (i + length (varint sz)) buf)"
proof (induction sz i buf rule: remaining_len_loop.induct)
  case (1 sz i buf)
  from "1.prems" varint_nonempty [of sz] have i: "i < length buf"
    by (cases "varint sz") auto
  show ?case
  proof (cases "drop_bit 7 sz > 0")
    case True
    then have v: "varint sz = (sz AND 127 OR 128) # varint (drop_bit 7 sz)"
      by (subst varint.simps) simp
    let ?buf = "(buf[i := sz AND 127])[i := (buf[i := sz AND 127]) ! i OR 128]"
    have b: "?buf = buf[i := sz AND 127 OR 128]" using i by simp
    have "remaining_len_loop sz i buf = remaining_len_loop (drop_bit 7 sz) (i + 1) ?buf"
      using i True by (subst remaining_len_loop.simps) simp
    also have "\<dots> = (Inr (i + 1 + length (varint (drop_bit 7 sz)) - 1),
        take (i + 1) ?buf @ varint (drop_bit 7 sz) @ drop (i + 1 + length (varint (drop_bit 7 sz))) ?buf)"
      using "1.prems" i True v by (intro "1.IH") auto
    also have "\<dots> = (Inr (i + length (varint sz) - 1),
      take i buf @ varint sz @ drop (i + length (varint sz)) buf)"
      using i unfolding b v by (simp add: take_Suc_conv_app_nth)
    finally show ?thesis .
  next
    case False
    then have v: "varint sz = [sz AND 127]"
      by (subst varint.simps) simp
    have "remaining_len_loop sz i buf = (Inr i, buf[i := sz AND 127])"
      using i False by (subst remaining_len_loop.simps) simp
    then show ?thesis using i unfolding v by (simp add: upd_conv_take_nth_drop)
  qed
qed

subsection \<open>Decoding what was encoded\<close>

lemma glue7: "take_bit 7 (x::int) OR push_bit 7 (drop_bit 7 x) = x"
proof (rule bit_eqI)
  fix n
  show "bit (take_bit 7 x OR push_bit 7 (drop_bit 7 x)) n \<longleftrightarrow> bit x n"
    by (cases "n < 7") (auto simp add: bit_simps)
qed

lemma push_or:
  "(v OR push_bit k (take_bit 7 (x::int))) OR push_bit (k + 7) (drop_bit 7 x) = v OR push_bit k x"
proof -
  have "push_bit k (take_bit 7 x) OR push_bit (k + 7) (drop_bit 7 x) =
        push_bit k (take_bit 7 x OR push_bit 7 (drop_bit 7 x))"
    by (simp add: push_bit_or push_bit_push_bit add.commute)
  then show ?thesis by (simp add: glue7 or.assoc)
qed

lemma sock_recv_1:
  "sock c = Some s \<Longrightarrow> inbox s = b # rest \<Longrightarrow>
   sock_recv 1 c = (Inr [b], c\<lparr>sock := Some (s\<lparr>inbox := rest\<rparr>)\<rparr>)"
  by (simp add: sock_recv_def)

lemma recv_len_loop_varint:
  "0 \<le> sz \<Longrightarrow> length (varint sz) \<le> n \<Longrightarrow> sock c = Some s \<Longrightarrow> inbox s = varint sz @ rest \<Longrightarrow>
   recv_len_loop n i v c = (Inr (v OR push_bit (7 * i) sz), c\<lparr>sock := Some (s\<lparr>inbox := rest\<rparr>)\<rparr>)"
proof (induction n arbitrary: sz i v c s)
  case 0
  then show ?case using varint_nonempty [of sz] by simp
next
  case (Suc n)
  show ?case
  proof (cases "drop_bit 7 sz > 0")
    case True
    then have v: "varint sz = (sz AND 127 OR 128) # varint (drop_bit 7 sz)"
      by (subst varint.simps) simp
    let ?c = "c\<lparr>sock := Some (s\<lparr>inbox := varint (drop_bit 7 sz) @ rest\<rparr>)\<rparr>"
    have r: "sock_recv 1 c = (Inr [sz AND 127 OR 128], ?c)"
      using Suc.prems v by (intro sock_recv_1) auto
    have "recv_len_loop n (i + 1) (v OR push_bit (7 * i) (take_bit 7 sz)) ?c =
          (Inr ((v OR push_bit (7 * i) (take_bit 7 sz)) OR push_bit (7 * (i + 1)) (drop_bit 7 sz)),
           ?c\<lparr>sock := Some (s\<lparr>inbox := varint (drop_bit 7 sz) @ rest\<rparr>\<lparr>inbox := rest\<rparr>)\<rparr>)"
      by (rule Suc.IH) (use Suc.prems v True in auto)
    then show ?thesis
      using r cont_and128 [of sz] push_or [of v "7 * i" sz]
      by (simp add: cont_and127 add.commute)
  next
    case False
    then have v: "varint sz = [sz AND 127]"
      by (subst varint.simps) simp
    from False \<open>0 \<le> sz\<close> have "drop_bit 7 sz = 0"
      by (simp add: drop_bit_eq_div) 
    then have t: "take_bit 7 sz = sz"
      using glue7 [of sz] by simp
    then have a: "sz AND 127 = sz"
      by (simp add: and127)
    have b: "sz AND 128 = 0"
      using last_and128 [of sz] by (simp only: a)
    have r: "sock_recv 1 c = (Inr [sz], c\<lparr>sock := Some (s\<lparr>inbox := rest\<rparr>)\<rparr>)"
      using Suc.prems v a by (intro sock_recv_1) auto
    show ?thesis using r by (simp add: a b)
  qed
qed

subsection \<open>The length of the encoding\<close>

lemma bit_length_pos: "0 < n \<Longrightarrow> bit_length n = Suc (bit_length (n div 2))"
  by (subst bit_length.simps) simp

lemma bit_length_0: "bit_length 0 = 0"
  by (subst bit_length.simps) simp

lemma bit_length_le: "0 \<le> n \<Longrightarrow> n < 2 ^ k \<Longrightarrow> bit_length n \<le> k"
proof (induction k arbitrary: n)
  case 0
  then have "n = 0" by simp
  then show ?case by (simp add: bit_length_0)
next
  case (Suc k)
  show ?case
  proof (cases "n = 0")
    case True
    then show ?thesis by (simp add: bit_length_0)
  next
    case False
    with Suc.prems have "0 < n" by simp
    moreover have "bit_length (n div 2) \<le> k"
      using Suc.prems by (intro Suc.IH) auto
    ultimately show ?thesis by (simp add: bit_length_pos)
  qed
qed

lemma bit_length_div_pow: "2 ^ k \<le> n \<Longrightarrow> bit_length n = k + bit_length (n div 2 ^ k)"
proof (induction k arbitrary: n)
  case 0
  then show ?case by simp
next
  case (Suc k)
  have "(0::int) < 2 ^ Suc k" by simp
  with Suc.prems have pos: "0 < n" by linarith
  from Suc.prems have "2 ^ k \<le> n div 2" by simp
  then have "bit_length (n div 2) = k + bit_length (n div 2 div 2 ^ k)"
    by (rule Suc.IH)
  moreover have "n div 2 div 2 ^ k = n div 2 ^ Suc k"
    by (simp add: zdiv_zmult2_eq)
  ultimately show ?case
    using bit_length_pos [OF pos] by simp
qed

lemma bit_length_div128: "128 \<le> n \<Longrightarrow> bit_length n = 7 + bit_length (n div 128)"
  using bit_length_div_pow [of 7 n] by simp

lemma length_varint:
  "0 \<le> sz \<Longrightarrow> length (varint sz) = max 1 ((bit_length sz + 6) div 7)"
proof (induction sz rule: varint.induct)
  case (1 sz)
  show ?case
  proof (cases "drop_bit 7 sz > 0")
    case True
    then have v: "varint sz = (sz AND 127 OR 128) # varint (drop_bit 7 sz)"
      by (subst varint.simps) simp
    from True have ge: "128 \<le> sz" by (simp add: drop_bit_eq_div)
    from True have "1 \<le> bit_length (drop_bit 7 sz)"
      using bit_length_pos [of "drop_bit 7 sz"] by simp
    moreover have "bit_length sz = 7 + bit_length (drop_bit 7 sz)"
      using bit_length_div128 [OF ge] by (simp add: drop_bit_eq_div)
    moreover have "length (varint (drop_bit 7 sz)) = max 1 ((bit_length (drop_bit 7 sz) + 6) div 7)"
      using True "1.prems" by (intro "1.IH") auto
    ultimately show ?thesis unfolding v by simp
  next
    case False
    then have v: "varint sz = [sz AND 127]"
      by (subst varint.simps) simp
    from False "1.prems" have "sz < 2 ^ 7" by (simp add: drop_bit_eq_div)
    with "1.prems" have "bit_length sz \<le> 7" by (rule bit_length_le)
    then show ?thesis unfolding v by simp
  qed
qed

lemma length_varint_le4:
  assumes "0 \<le> sz" "sz \<le> 268435455"
  shows "length (varint sz) \<le> 4"
proof -
  have "sz < 2 ^ 28" using assms by simp
  with assms(1) have "bit_length sz \<le> 28" by (rule bit_length_le)
  then show ?thesis using length_varint [OF assms(1)] by simp
qed

lemma remaining_len_varint:
  assumes "0 \<le> sz" "sz \<le> 268435455" "length (size_buf c) = 4"
  shows "remaining_len sz c =
           (Inr (varint sz), c\<lparr>size_buf := varint sz @ drop (length (varint sz)) (size_buf c)\<rparr>)"
proof -
  have l: "length (varint sz) \<le> 4" using assms(1,2) by (rule length_varint_le4)
  have "remaining_len_loop sz 0 (size_buf c) =
      (Inr (0 + length (varint sz) - 1),
       take 0 (size_buf c) @ varint sz @ drop (0 + length (varint sz)) (size_buf c))"
    by (rule remaining_len_loop_varint) (use l assms(3) in simp)
  moreover have "Suc (length (varint sz) - 1) = length (varint sz)"
    using varint_nonempty [of sz] by (cases "varint sz") auto
  ultimately show ?thesis
    using assms(2) by (simp add: remaining_len_def)
qed

text \<open>
  Claim C5. For every size in \<open>[0, 268435454]\<close>, \<^verbatim>\<open>remaining_len\<close> returns an encoding
  of \<open>max 1 (ceil (bitlength size / 7))\<close> bytes, and \<^verbatim>\<open>_recv_len\<close>, reading that encoding
  from the socket, returns the size and leaves the bytes after it unread.
\<close>

theorem remaining_len_roundtrip:
  assumes "0 \<le> sz" and "sz \<le> 268435454" and "length (size_buf c) = 4"
  shows "\<exists>bs c'. remaining_len sz c = (Inr bs, c') \<and>
           length bs = max 1 ((bit_length sz + 6) div 7) \<and>
           recv_len (d\<lparr>sock := Some (s\<lparr>inbox := bs @ rest\<rparr>)\<rparr>) =
             (Inr sz, d\<lparr>sock := Some (s\<lparr>inbox := rest\<rparr>)\<rparr>)"
proof -
  from assms(2) have le: "sz \<le> 268435455" by simp
  have "recv_len_loop 4 0 0 (d\<lparr>sock := Some (s\<lparr>inbox := varint sz @ rest\<rparr>)\<rparr>) =
          (Inr (0 OR push_bit (7 * 0) sz),
           d\<lparr>sock := Some (s\<lparr>inbox := varint sz @ rest\<rparr>)\<rparr>
            \<lparr>sock := Some (s\<lparr>inbox := varint sz @ rest\<rparr>\<lparr>inbox := rest\<rparr>)\<rparr>)"
    by (rule recv_len_loop_varint) (use assms(1) length_varint_le4 [OF assms(1) le] in simp_all)
  then have "recv_len (d\<lparr>sock := Some (s\<lparr>inbox := varint sz @ rest\<rparr>)\<rparr>) =
             (Inr sz, d\<lparr>sock := Some (s\<lparr>inbox := rest\<rparr>)\<rparr>)"
    by (simp add: recv_len_def)
  then show ?thesis
    using remaining_len_varint [OF assms(1) le assms(3)] length_varint [OF assms(1)]
    by simp
qed

theorem remaining_len_roundtrip_witness:
  "(0::int) \<le> 300 \<and> (300::int) \<le> 268435454 \<and> length (size_buf (init [] True)) = 4 \<and>
   (\<exists>bs c'. remaining_len 300 (init [] True) = (Inr bs, c') \<and>
           length bs = max 1 ((bit_length 300 + 6) div 7) \<and>
           recv_len ((init [] True)\<lparr>sock := Some (\<lparr>inbox = [], eof = False, sent = []\<rparr>\<lparr>inbox := bs @ [9]\<rparr>)\<rparr>) =
             (Inr 300, (init [] True)\<lparr>sock := Some (\<lparr>inbox = [], eof = False, sent = []\<rparr>\<lparr>inbox := [9]\<rparr>)\<rparr>))"
  using remaining_len_roundtrip [where sz = 300 and c = "init [] True" and d = "init [] True"
      and s = "\<lparr>inbox = [], eof = False, sent = []\<rparr>" and rest = "[9]"]
  by (simp add: init_def)

text \<open>
  Claim C9, as the code has it. The assertion of \<^verbatim>\<open>remaining_len\<close> is
  \<^verbatim>\<open>size <= (256 << 20) - 1\<close>, that is \<open>size \<le> 268435455\<close>: every larger size fails with
  \<^verbatim>\<open>AssertionError\<close> and changes nothing, while 268435455 itself is encoded in four bytes.
\<close>

theorem remaining_len_rejects:
  "268435455 < sz \<Longrightarrow> remaining_len sz c = (Inl AssertionError, c)"
  by (simp add: remaining_len_def)

theorem remaining_len_rejects_witness:
  "(268435455::int) < 268435456 \<and>
   remaining_len 268435456 (init [] True) = (Inl AssertionError, init [] True)"
  using remaining_len_rejects [of 268435456 "init [] True"] by simp

theorem remaining_len_max_accepted:
  "(268435454::int) < 268435455 \<and>
   fst (remaining_len 268435455 (init [] True)) = Inr [255, 255, 255, 127]"
  by (simp add: remaining_len_def init_def remaining_len_loop.simps)


section \<open>The packet-identifier generator\<close>

lemma and65535: "(x::int) AND 65535 = x mod 65536"
proof -
  have "x AND 65535 = take_bit 16 x" by (simp add: take_bit_eq_mask mask_eq_exp_minus_1)
  then show ?thesis by (simp add: take_bit_eq_mod)
qed

lemma next_packet_id_step:
  assumes "0 \<le> m" "m < 65535"
  shows "next_packet_id (m + 1) = (m + 1) mod 65535 + 1"
proof (cases "m = 65534")
  case True
  then show ?thesis by (simp add: next_packet_id_def and65535)
next
  case False
  with assms have "m + 2 < 65536" "0 \<le> m + 2" "m + 1 < 65535" "0 \<le> m + 1" by simp_all
  then show ?thesis by (simp add: next_packet_id_def and65535)
qed

text \<open>
  Claim C6, as the code has it. A fresh client holds \<^verbatim>\<open>_packet_id = 1\<close>, and \<^verbatim>\<open>subscribe\<close>
  and \<^verbatim>\<open>publish\<close> advance the counter before they use it. So the \<open>k\<close>-th identifier
  issued is \<open>k mod 65535 + 1\<close>: the sequence is 2, 3, ..., 65535, 1, 2, ...; each
  identifier is the previous one plus 1 modulo 65535, 65535 is followed by 1, and 0 never
  occurs. This holds for every \<open>k\<close>, in particular up to 70000.
\<close>

theorem packet_id_sequence:
  "(next_packet_id ^^ k) (packet_id (init cid clean)) = int (k mod 65535) + 1"
proof (induction k)
  case 0
  then show ?case by (simp add: init_def)
next
  case (Suc k)
  have "next_packet_id (int (k mod 65535) + 1) = (int (k mod 65535) + 1) mod 65535 + 1"
    by (rule next_packet_id_step) simp_all
  also have "(int (k mod 65535) + 1) mod 65535 = int (Suc k mod 65535)"
    by (simp add: zmod_int mod_simps add.commute)
  finally show ?case using Suc.IH by simp
qed

text \<open>The first identifier a fresh client issues is 2, not 1.\<close>

theorem first_packet_id_is_2:
  "next_packet_id (packet_id (init [] True)) = 2"
  by (simp add: init_def next_packet_id_def)


section \<open>The fixed header of SUBSCRIBE, UNSUBSCRIBE and PUBREL\<close>

lemma send_succeeds:
  assumes "sock c = Some s" and "length (size_buf c) = 4" and "int (length pl) \<le> 268435455"
    and "hdr = push_bit 4 t OR (if t = P_PUBREL \<or> t = P_SUBSCRIBE \<or> t = P_UNSUBSCRIBE then 2 else f)"
    and "0 \<le> hdr" and "hdr < 256"
  shows "send t f pl c =
    (Inr (), c\<lparr>size_buf := varint (int (length pl)) @ drop (length (varint (int (length pl)))) (size_buf c),
              sock := Some (s\<lparr>sent := sent s @ [hdr # varint (int (length pl)), pl]\<rparr>)\<rparr>)"
proof -
  have "remaining_len (int (length pl)) c =
      (Inr (varint (int (length pl))),
       c\<lparr>size_buf := varint (int (length pl)) @ drop (length (varint (int (length pl)))) (size_buf c)\<rparr>)"
    by (rule remaining_len_varint) (use assms in simp_all)
  then show ?thesis
    using assms by (simp add: send_def Let_def sock_sendall_def)
qed

text \<open>
  Claim C8. Whatever flags the caller passes, \<^verbatim>\<open>_send\<close> of a SUBSCRIBE, UNSUBSCRIBE or
  PUBREL packet on an open socket sends a header byte whose low nibble is \<open>0b0010\<close> and
  whose high nibble is the packet type, followed by the remaining length, and then the
  payload.
\<close>

theorem send_flags_override:
  assumes "t = P_SUBSCRIBE \<or> t = P_UNSUBSCRIBE \<or> t = P_PUBREL"
    and "sock c = Some s" and "length (size_buf c) = 4" and "int (length pl) \<le> 268435455"
  shows "\<exists>hdr rl c' s'. send t flags pl c = (Inr (), c') \<and> sock c' = Some s' \<and>
           sent s' = sent s @ [hdr # rl, pl] \<and> hdr AND 15 = 2 \<and> drop_bit 4 hdr = t"
proof -
  define hdr where "hdr = push_bit 4 t OR 2"
  have h: "0 \<le> hdr \<and> hdr < 256 \<and> hdr AND 15 = 2 \<and> drop_bit 4 hdr = t"
    using assms(1) by (auto simp add: hdr_def P_defs)
  have "send t flags pl c =
    (Inr (), c\<lparr>size_buf := varint (int (length pl)) @ drop (length (varint (int (length pl)))) (size_buf c),
              sock := Some (s\<lparr>sent := sent s @ [hdr # varint (int (length pl)), pl]\<rparr>)\<rparr>)"
    by (rule send_succeeds) (use assms h in \<open>auto simp add: hdr_def\<close>)
  with h show ?thesis by simp
qed

theorem send_flags_override_witness:
  "(P_SUBSCRIBE = P_SUBSCRIBE \<or> P_SUBSCRIBE = P_UNSUBSCRIBE \<or> P_SUBSCRIBE = P_PUBREL) \<and>
   (\<exists>hdr rl c' s'.
      send P_SUBSCRIBE 13 [0, 2, 0, 1, 97, 0]
        ((init [] True)\<lparr>sock := Some \<lparr>inbox = [], eof = False, sent = []\<rparr>\<rparr>) = (Inr (), c') \<and>
      sock c' = Some s' \<and> sent s' = [] @ [hdr # rl, [0, 2, 0, 1, 97, 0]] \<and>
      hdr AND 15 = 2 \<and> drop_bit 4 hdr = P_SUBSCRIBE)"
  using send_flags_override [where t = P_SUBSCRIBE and flags = 13 and pl = "[0, 2, 0, 1, 97, 0]"
      and s = "\<lparr>inbox = [], eof = False, sent = []\<rparr>"
      and c = "(init [] True)\<lparr>sock := Some \<lparr>inbox = [], eof = False, sent = []\<rparr>\<rparr>"]
  by (simp add: init_def)

section \<open>The read loop\<close>

lemma varint_0: "varint 0 = [0]"
  by (subst varint.simps) simp

lemma loop_body_reads:
  assumes "sock c = Some s" and "inbox s = ctrl # varint (int (length d)) @ d @ rest"
    and "int (length d) \<le> 268435455"
  shows "loop_body data pr c =
           dispatch ctrl (drop_bit 4 ctrl) (if d = [] then data else Some d) pr
             (c\<lparr>sock := Some (s\<lparr>inbox := rest\<rparr>)\<rparr>)"
proof -
  let ?n = "int (length d)"
  let ?c1 = "c\<lparr>sock := Some (s\<lparr>inbox := varint ?n @ d @ rest\<rparr>)\<rparr>"
  let ?c2 = "c\<lparr>sock := Some (s\<lparr>inbox := d @ rest\<rparr>)\<rparr>"
  have r1: "sock_recv 1 c = (Inr [ctrl], ?c1)"
    using assms(1,2) by (simp add: sock_recv_def)
  have "recv_len_loop 4 0 0 ?c1 =
      (Inr (0 OR push_bit (7 * 0) ?n),
       ?c1\<lparr>sock := Some (s\<lparr>inbox := varint ?n @ d @ rest\<rparr>\<lparr>inbox := d @ rest\<rparr>)\<rparr>)"
    by (rule recv_len_loop_varint) (use assms(3) length_varint_le4 [of ?n] in simp_all)
  then have r2: "recv_len ?c1 = (Inr ?n, ?c2)"
    by (simp add: recv_len_def)
  show ?thesis
  proof (cases "d = []")
    case True
    with r1 r2 show ?thesis by (simp add: loop_body_def)
  next
    case False
    then have "sock_recv (nat ?n) ?c2 = (Inr d, c\<lparr>sock := Some (s\<lparr>inbox := rest\<rparr>)\<rparr>)"
      by (simp add: sock_recv_def)
    with r1 r2 False show ?thesis by (simp add: loop_body_def)
  qed
qed

lemma remove_acked_None: "remove_acked p q = None \<longleftrightarrow> p \<notin> fst ` set q"
  by (induction q) auto

lemma remove_acked_Some:
  "p \<in> fst ` set q \<Longrightarrow>
   \<exists>xs e ys. q = xs @ e # ys \<and> fst e = p \<and> p \<notin> fst ` set xs \<and> remove_acked p q = Some (xs @ ys)"
proof (induction q)
  case Nil
  then show ?case by simp
next
  case (Cons a q)
  show ?case
  proof (cases "p = fst a")
    case True
    then have "a # q = [] @ a # q \<and> fst a = p \<and> p \<notin> fst ` set [] \<and>
               remove_acked p (a # q) = Some ([] @ q)" by simp
    then show ?thesis by blast
  next
    case False
    with Cons.prems have "p \<in> fst ` set q" by auto
    then obtain xs e ys where "q = xs @ e # ys" "fst e = p" "p \<notin> fst ` set xs"
      "remove_acked p q = Some (xs @ ys)"
      using Cons.IH by blast
    with False have "a # q = (a # xs) @ e # ys \<and> fst e = p \<and> p \<notin> fst ` set (a # xs) \<and>
               remove_acked p (a # q) = Some ((a # xs) @ ys)" by simp
    then show ?thesis by blast
  qed
qed

text \<open>
  Claim C7. An iteration of the loop of \<^verbatim>\<open>loop_read\<close> that receives a PUBACK carrying a
  payload \<open>d\<close> (for a PUBACK of the protocol, the two bytes of the packet identifier)
  raises nothing and goes on. If the in-flight list has an entry with the identifier
  \<^verbatim>\<open>int.from_bytes(d, 'big')\<close>, the first such entry is removed and the others stay as
  they are, in order; if it has none, the list is unchanged and one diagnostic is printed.
\<close>

theorem puback_removes_matching_entry:
  assumes "sock c = Some s" and "inbox s = ctrl # varint (int (length d)) @ d @ rest"
    and "d \<noteq> []" and "int (length d) \<le> 268435455" and "drop_bit 4 ctrl = P_PUBACK"
  shows "\<exists>c'. loop_body data pr c = (Inr Continue, (Some d, pr), c') \<and>
           (if from_bytes d \<in> fst ` set (pub_queue c)
            then \<exists>xs e ys. pub_queue c = xs @ e # ys \<and> fst e = from_bytes d \<and>
                   from_bytes d \<notin> fst ` set xs \<and>
                   c' = c\<lparr>sock := Some (s\<lparr>inbox := rest\<rparr>), pub_queue := xs @ ys\<rparr>
            else c' = c\<lparr>sock := Some (s\<lparr>inbox := rest\<rparr>),
                       printed := printed c @ [UnknownPuback (from_bytes d)]\<rparr>)"
proof -
  let ?c = "c\<lparr>sock := Some (s\<lparr>inbox := rest\<rparr>)\<rparr>"
  have b: "loop_body data pr c = dispatch ctrl P_PUBACK (Some d) pr ?c"
    using loop_body_reads [OF assms(1,2,4)] assms(3,5) by simp
  show ?thesis
  proof (cases "from_bytes d \<in> fst ` set (pub_queue c)")
    case True
    then obtain xs e ys where q: "pub_queue c = xs @ e # ys" "fst e = from_bytes d"
      "from_bytes d \<notin> fst ` set xs" "remove_acked (from_bytes d) (pub_queue c) = Some (xs @ ys)"
      using remove_acked_Some by blast
    let ?c' = "c\<lparr>sock := Some (s\<lparr>inbox := rest\<rparr>), pub_queue := xs @ ys\<rparr>"
    from q have run: "loop_body data pr c = (Inr Continue, (Some d, pr), ?c')"
      using b by (simp add: dispatch_def P_defs)
    from q have "\<exists>xs' e' ys'. pub_queue c = xs' @ e' # ys' \<and> fst e' = from_bytes d \<and>
        from_bytes d \<notin> fst ` set xs' \<and>
        ?c' = c\<lparr>sock := Some (s\<lparr>inbox := rest\<rparr>), pub_queue := xs' @ ys'\<rparr>"
      by blast
    with run show ?thesis
      by (simp only: True if_True) blast
  next
    case False
    then have "remove_acked (from_bytes d) (pub_queue c) = None"
      by (simp add: remove_acked_None)
    then have "loop_body data pr c =
        (Inr Continue, (Some d, pr), ?c\<lparr>printed := printed c @ [UnknownPuback (from_bytes d)]\<rparr>)"
      using b by (simp add: dispatch_def P_defs)
    with False show ?thesis by simp
  qed
qed

theorem puback_removes_matching_entry_witness:
  "sock ((init [] True)\<lparr>sock := Some \<lparr>inbox = [64, 2, 0, 5, 9], eof = False, sent = []\<rparr>,
                        pub_queue := [(5, 2, [1]), (6, 2, [2])]\<rparr>)
     = Some \<lparr>inbox = [64, 2, 0, 5, 9], eof = False, sent = []\<rparr> \<and>
   [64, 2, 0, 5, 9] = 64 # varint (int (length [0, 5 :: int])) @ [0, 5] @ [9] \<and>
   drop_bit 4 (64 :: int) = P_PUBACK \<and>
   from_bytes [0, 5] \<in> fst ` set [(5, 2, [1]), (6 :: int, 2 :: int, [2 :: int])] \<and>
   (\<exists>c'. loop_body None False
          ((init [] True)\<lparr>sock := Some \<lparr>inbox = [64, 2, 0, 5, 9], eof = False, sent = []\<rparr>,
                          pub_queue := [(5, 2, [1]), (6, 2, [2])]\<rparr>)
        = (Inr Continue, (Some [0, 5], False), c') \<and>
      (\<exists>xs e ys. [(5, 2, [1]), (6, 2, [2])] = xs @ e # ys \<and> fst e = (5 :: int) \<and>
         5 \<notin> fst ` set xs \<and>
         c' = (init [] True)\<lparr>sock := Some \<lparr>inbox = [9], eof = False, sent = []\<rparr>,
                               pub_queue := xs @ ys\<rparr>))"
proof -
  have v: "varint 2 = [2]" by (subst varint.simps) simp
  have f: "from_bytes [0, 5] = 5" by (simp add: from_bytes_def)
  show ?thesis
    using puback_removes_matching_entry [where ctrl = 64 and d = "[0, 5]" and rest = "[9]"
        and s = "\<lparr>inbox = [64, 2, 0, 5, 9], eof = False, sent = []\<rparr>"
        and c = "(init [] True)\<lparr>sock := Some \<lparr>inbox = [64, 2, 0, 5, 9], eof = False, sent = []\<rparr>,
                                 pub_queue := [(5, 2, [1]), (6, 2, [2])]\<rparr>"
        and data = None and pr = False]
    by (simp add: v f P_defs init_def)
qed

text \<open>
  Claim C10. When a SUBACK or PUBACK arrives with remaining length 0, the iteration does
  not assign \<^verbatim>\<open>data\<close>, and the handler reads it all the same: while \<^verbatim>\<open>data\<close> is unbound
  (as for the first packet of an invocation of \<^verbatim>\<open>loop_read\<close>) that is a \<^verbatim>\<open>NameError\<close>;
  otherwise the handler works on the bytes \<open>d\<close> of an earlier packet: the PUBACK handler
  acknowledges \<^verbatim>\<open>int.from_bytes(d, 'big')\<close>, the SUBACK handler reads \<^verbatim>\<open>d[2]\<close>.
\<close>

theorem zero_length_ack_reads_stale_data:
  assumes "sock c = Some s" and "inbox s = ctrl # 0 # rest"
    and "drop_bit 4 ctrl = P_SUBACK \<or> drop_bit 4 ctrl = P_PUBACK"
  shows "loop_body None pr c = (Inl NameError, (None, pr), c\<lparr>sock := Some (s\<lparr>inbox := rest\<rparr>)\<rparr>) \<and>
         loop_body (Some d) pr c =
           (if drop_bit 4 ctrl = P_PUBACK
            then (Inr Continue, (Some d, pr),
                  case remove_acked (from_bytes d) (pub_queue c) of
                    Some q' \<Rightarrow> c\<lparr>sock := Some (s\<lparr>inbox := rest\<rparr>), pub_queue := q'\<rparr>
                  | None \<Rightarrow> c\<lparr>sock := Some (s\<lparr>inbox := rest\<rparr>),
                              printed := printed c @ [UnknownPuback (from_bytes d)]\<rparr>)
            else (if length d \<le> 2 then Inl IndexError else Inr Continue, (Some d, pr),
                  c\<lparr>sock := Some (s\<lparr>inbox := rest\<rparr>)\<rparr>)) \<and>
         (registered c \<and> keepalive c \<noteq> None \<longrightarrow>
            loop_read c = (Inl NameError, c\<lparr>sock := Some (s\<lparr>inbox := rest\<rparr>)\<rparr>))"
proof -
  let ?c = "c\<lparr>sock := Some (s\<lparr>inbox := rest\<rparr>)\<rparr>"
  have i: "inbox s = ctrl # varint (int (length ([] :: int list))) @ [] @ rest"
    using assms(2) by (simp add: varint_0)
  have b: "loop_body data p c = dispatch ctrl (drop_bit 4 ctrl) data p ?c" for data p
    using loop_body_reads [OF assms(1) i, of data p] by simp
  have suback: "dispatch cp P_SUBACK data p x =
      (case data of
         None \<Rightarrow> (Inl NameError, (data, p), x)
       | Some d \<Rightarrow>
           if length d \<le> 2 then (Inl IndexError, (data, p), x)
           else (Inr Continue, (data, p), x))" for cp data p x
    by (simp add: dispatch_def P_defs)
  have puback: "dispatch cp P_PUBACK data p x =
      (case data of
         None \<Rightarrow> (Inl NameError, (data, p), x)
       | Some d \<Rightarrow>
           (case remove_acked (from_bytes d) (pub_queue x) of
              Some q' \<Rightarrow> (Inr Continue, (data, p), x\<lparr>pub_queue := q'\<rparr>)
            | None \<Rightarrow>
                (Inr Continue, (data, p),
                 x\<lparr>printed := printed x @ [UnknownPuback (from_bytes d)]\<rparr>)))" for cp data p x
    by (simp add: dispatch_def P_defs)
  have ne: "P_SUBACK \<noteq> P_PUBACK" by (simp add: P_defs)
  have n: "loop_body None p c = (Inl NameError, (None, p), ?c)" for p
  proof -
    from assms(3) show ?thesis
    proof
      assume "drop_bit 4 ctrl = P_SUBACK"
      then show ?thesis by (simp add: b suback)
    next
      assume "drop_bit 4 ctrl = P_PUBACK"
      then show ?thesis by (simp add: b puback)
    qed
  qed
  have s: "loop_body (Some d) pr c =
           (if drop_bit 4 ctrl = P_PUBACK
            then (Inr Continue, (Some d, pr),
                  case remove_acked (from_bytes d) (pub_queue c) of
                    Some q' \<Rightarrow> ?c\<lparr>pub_queue := q'\<rparr>
                  | None \<Rightarrow> ?c\<lparr>printed := printed c @ [UnknownPuback (from_bytes d)]\<rparr>)
            else (if length d \<le> 2 then Inl IndexError else Inr Continue, (Some d, pr), ?c))"
  proof -
    from assms(3) show ?thesis
    proof
      assume "drop_bit 4 ctrl = P_SUBACK"
      then show ?thesis by (simp add: b suback ne)
    next
      assume "drop_bit 4 ctrl = P_PUBACK"
      then show ?thesis by (simp add: b puback split: option.split)
    qed
  qed
  have l: "loop_read c = (Inl NameError, ?c)" if "registered c" "keepalive c \<noteq> None"
  proof -
    from that assms(1,2) have "poll c" by (simp add: poll_def)
    then have "loop_read_while None False c = (Inl NameError, ?c)"
      by (subst loop_read_while.simps) (simp add: n)
    with that show ?thesis by (auto simp add: loop_read_def)
  qed
  from n s l show ?thesis by simp
qed

theorem zero_length_ack_reads_stale_data_witness:
  "sock ((init [] True)\<lparr>sock := Some \<lparr>inbox = [64, 0], eof = False, sent = []\<rparr>,
                        registered := True, keepalive := Some 60\<rparr>)
     = Some \<lparr>inbox = [64, 0], eof = False, sent = []\<rparr> \<and>
   (drop_bit 4 (64 :: int) = P_SUBACK \<or> drop_bit 4 (64 :: int) = P_PUBACK) \<and>
   loop_read ((init [] True)\<lparr>sock := Some \<lparr>inbox = [64, 0], eof = False, sent = []\<rparr>,
                        registered := True, keepalive := Some 60\<rparr>)
     = (Inl NameError,
        (init [] True)\<lparr>sock := Some \<lparr>inbox = [], eof = False, sent = []\<rparr>,
                        registered := True, keepalive := Some 60\<rparr>) \<and>
   loop_body (Some [0, 5]) False
       ((init [] True)\<lparr>sock := Some \<lparr>inbox = [64, 0], eof = False, sent = []\<rparr>,
                        registered := True, keepalive := Some 60\<rparr>)
     = (Inr Continue, (Some [0, 5], False),
        (init [] True)\<lparr>sock := Some \<lparr>inbox = [], eof = False, sent = []\<rparr>,
                        registered := True, keepalive := Some 60,
                        printed := [UnknownPuback 5]\<rparr>)"
  using zero_length_ack_reads_stale_data [where ctrl = 64 and rest = "[]" and d = "[0, 5]"
        and pr = False
        and s = "\<lparr>inbox = [64, 0], eof = False, sent = []\<rparr>"
        and c = "(init [] True)\<lparr>sock := Some \<lparr>inbox = [64, 0], eof = False, sent = []\<rparr>,
                        registered := True, keepalive := Some 60\<rparr>"]
  by (simp add: P_defs init_def from_bytes_def)

end
